theory Spec2Isabelle
  imports Main
begin

section \<open>Values shared by the whole module\<close>

text \<open>
  A Python byte string is a list of 8-bit characters. Exceptions are values: every
  function that can raise returns a sum whose left summand is the exception raised.
  \<open>BackendError n\<close> stands for whatever the object-store client raises when a request
  fails; the number only tells two such failures apart.
\<close>

type_synonym bytes = "char list"

datatype exn =
    RuntimeError
  | ValueError
  | NotImplementedError
  | TypeError
  | KeyError
  | UnicodeEncodeError
  | BackendError nat

definition newline :: char where
  "newline = CHR 0x0A"

section \<open>Line streaming: \<open>s3_iter_lines\<close>\<close>

text \<open>
  \<open>buf.find(b'\n', start)\<close>: the lowest index at or after \<open>start\<close> holding the
  character, or \<open>-1\<close>.
\<close>

primrec find_idx :: "char \<Rightarrow> bytes \<Rightarrow> nat \<Rightarrow> int" where
  "find_idx c [] i = - 1"
| "find_idx c (x # xs) i = (if x = c then int i else find_idx c xs (Suc i))"

definition py_find :: "bytes \<Rightarrow> char \<Rightarrow> nat \<Rightarrow> int" where
  "py_find buf c start = find_idx c (drop start buf) start"

text \<open>The slice \<open>buf[start : end]\<close> for \<open>0 \<le> start\<close> and \<open>0 \<le> end\<close>.\<close>

definition slice :: "bytes \<Rightarrow> nat \<Rightarrow> nat \<Rightarrow> bytes" where
  "slice buf start end = take (end - start) (drop start buf)"

lemma find_idx_range:
  "find_idx c xs i \<noteq> - 1 \<Longrightarrow> int i \<le> find_idx c xs i \<and> find_idx c xs i < int (i + length xs)"
  by (induction xs arbitrary: i) (auto split: if_splits, force+)

lemma py_find_range:
  assumes "py_find buf c start + 1 \<noteq> 0"
  shows "start < nat (py_find buf c start + 1)"
    and "nat (py_find buf c start + 1) \<le> length buf"
proof -
  have ne: "find_idx c (drop start buf) start \<noteq> - 1"
    using assms by (simp add: py_find_def)
  note r = find_idx_range [OF ne]
  show "start < nat (py_find buf c start + 1)"
    using r unfolding py_find_def by linarith
  show "nat (py_find buf c start + 1) \<le> length buf"
    using r unfolding py_find_def by (cases "start \<le> length buf") (simp, linarith, simp)
qed

text \<open>
  The inner \<open>while True\<close> loop over one buffer: the lines it yields, and the buffer it
  leaves (\<open>buf = buf[start : ]\<close>) when no newline is left.
\<close>

function scan_lines :: "bytes \<Rightarrow> nat \<Rightarrow> bytes list \<times> bytes" where
  "scan_lines buf start =
     (let end = py_find buf newline start + 1 in
      if end \<noteq> 0
      then (case scan_lines buf (nat end) of
              (ys, rest) \<Rightarrow> (slice buf start (nat end) # ys, rest))
      else ([], drop start buf))"
  by pat_completeness auto
termination
proof (relation "measure (\<lambda>(buf, start). length buf - start)")
  show "wf (measure (\<lambda>(buf, start). length buf - start))"
    by simp
next
  fix buf :: bytes and start :: nat and e :: int
  assume e: "e = py_find buf newline start + 1" and ne: "e \<noteq> 0"
  have "start < nat e" and "nat e \<le> length buf"
    using py_find_range [of buf newline start] e ne by simp_all
  then show "((buf, nat e), (buf, start)) \<in> measure (\<lambda>(buf, start). length buf - start)"
    by simp
qed

declare scan_lines.simps [simp del]

text \<open>
  The outer \<open>for chunk in key\<close> loop with the carried buffer, and the last line after
  it. The generator is modelled by the list of everything it yields when it is consumed
  to its end.
\<close>

fun iter_chunks :: "bytes list \<Rightarrow> bytes \<Rightarrow> bytes list" where
  "iter_chunks [] buf = (if buf \<noteq> [] then [buf] else [])"
| "iter_chunks (chunk # chunks) buf =
     (case scan_lines (buf @ chunk) 0 of
        (ys, buf') \<Rightarrow> ys @ iter_chunks chunks buf')"

text \<open>
  The argument of \<open>s3_iter_lines\<close>: a \<open>boto.s3.key.Key\<close>, given by the chunks that
  iterating over it delivers, or any other object.
\<close>

datatype key_arg = BotoKey "bytes list" | NotAKey

definition s3_iter_lines :: "key_arg \<Rightarrow> exn + bytes list" where
  "s3_iter_lines key =
     (case key of
        NotAKey \<Rightarrow> Inl TypeError
      | BotoKey chunks \<Rightarrow> Inr (iter_chunks chunks []))"

section \<open>Chunked upload: \<open>S3OpenWrite\<close>\<close>

text \<open>
  The object store behind \<open>outbucket\<close> and the multipart handle \<open>mp\<close>. Every call
  the writer makes on them is one request. The store is given by \<open>faults\<close>, which says
  for the n-th request it receives (counted from 0) whether it succeeds (\<open>None\<close>) or
  what it raises, and it records every request with its outcome, in order.
\<close>

datatype s3_request =
    InitiateUpload
  | UploadPart int bytes
  | CompleteUpload
  | CancelUpload

record s3_backend =
  faults :: "nat \<Rightarrow> exn option"
  requests :: "(s3_request \<times> exn option) list"

definition request :: "s3_request \<Rightarrow> s3_backend \<Rightarrow> exn option \<times> s3_backend" where
  "request r be =
     (let out = faults be (length (requests be))
      in (out, be\<lparr>requests := requests be @ [(r, out)]\<rparr>))"

text \<open>The parts the store holds: the part uploads that succeeded, in request order.\<close>

fun part_of :: "s3_request \<times> exn option \<Rightarrow> (int \<times> bytes) option" where
  "part_of (UploadPart n d, None) = Some (n, d)"
| "part_of _ = None"

definition uploaded_parts :: "s3_backend \<Rightarrow> (int \<times> bytes) list" where
  "uploaded_parts be = List.map_filter part_of (requests be)"

text \<open>The requests sent, whatever their outcome.\<close>

definition sent :: "s3_backend \<Rightarrow> s3_request list" where
  "sent be = map fst (requests be)"

text \<open>
  The argument of \<open>write\<close>: a binary string, a text string (given by what its
  \<open>encode('utf8')\<close> evaluates to), or an object of any other type.
\<close>

datatype py_value =
    PyBytes bytes
  | PyText "exn + bytes"
  | PyOther

record writer =
  backend :: s3_backend
  min_part_size :: int
  lines :: "bytes list"
  total_size :: int
  chunk_bytes :: int
  parts :: int

text \<open>
  \<open>S3OpenWrite.__init__\<close>. The bucket is given by how it answers the requests of
  this session; the session's record of requests starts empty. The warning logged for a
  part size under 5MB changes nothing in the state; logging is left out throughout.
\<close>

definition S3OpenWrite_init :: "(nat \<Rightarrow> exn option) \<Rightarrow> int \<Rightarrow> exn + writer" where
  "S3OpenWrite_init outbucket mps =
     (case request InitiateUpload \<lparr>faults = outbucket, requests = []\<rparr> of
        (Some e, be) \<Rightarrow> Inl e
      | (None, be) \<Rightarrow>
          Inr \<lparr>backend = be, min_part_size = mps, lines = [], total_size = 0,
               chunk_bytes = 0, parts = 0\<rparr>)"

text \<open>The two type tests at the head of \<open>write\<close>.\<close>

fun as_binary :: "py_value \<Rightarrow> exn + bytes" where
  "as_binary (PyText enc) = enc"
| "as_binary (PyBytes b) = Inr b"
| "as_binary PyOther = Inl TypeError"

text \<open>
  \<open>S3OpenWrite.write\<close>. A method returns its outcome and the object as it has left
  it: an exception does not undo the assignments made before it.
\<close>

definition S3OpenWrite_write :: "py_value \<Rightarrow> writer \<Rightarrow> (exn + unit) \<times> writer" where
  "S3OpenWrite_write v w =
     (case as_binary v of
        Inl e \<Rightarrow> (Inl e, w)
      | Inr b \<Rightarrow>
          (let w1 = w\<lparr>lines := lines w @ [b],
                       chunk_bytes := chunk_bytes w + int (length b),
                       total_size := total_size w + int (length b)\<rparr>
           in if chunk_bytes w1 \<ge> min_part_size w1
              then (let buff = concat (lines w1)
                    in case request (UploadPart (parts w1 + 1) buff) (backend w1) of
                         (Some e, be) \<Rightarrow> (Inl e, w1\<lparr>backend := be\<rparr>)
                       | (None, be) \<Rightarrow>
                           (Inr (), w1\<lparr>backend := be, parts := parts w1 + 1,
                                        lines := [], chunk_bytes := 0\<rparr>))
              else (Inr (), w1)))"

text \<open>\<open>S3OpenWrite.close\<close>.\<close>

definition upload_last_part :: "writer \<Rightarrow> (exn + unit) \<times> writer" where
  "upload_last_part w =
     (let buff = concat (lines w)
      in if buff \<noteq> []
         then (case request (UploadPart (parts w + 1) buff) (backend w) of
                 (Some e, be) \<Rightarrow> (Inl e, w\<lparr>backend := be\<rparr>)
               | (None, be) \<Rightarrow> (Inr (), w\<lparr>backend := be\<rparr>))
         else (Inr (), w))"

definition S3OpenWrite_close :: "writer \<Rightarrow> (exn + unit) \<times> writer" where
  "S3OpenWrite_close w =
     (case upload_last_part w of
        (Inl e, w1) \<Rightarrow> (Inl e, w1)
      | (Inr u, w1) \<Rightarrow>
          (case request (if total_size w1 \<noteq> 0 then CompleteUpload else CancelUpload)
                  (backend w1) of
             (Some e, be) \<Rightarrow> (Inl e, w1\<lparr>backend := be\<rparr>)
           | (None, be) \<Rightarrow> (Inr (), w1\<lparr>backend := be\<rparr>)))"

text \<open>\<open>S3OpenWrite._termination_error\<close>.\<close>

definition S3OpenWrite_termination_error :: "writer \<Rightarrow> (exn + unit) \<times> writer" where
  "S3OpenWrite_termination_error w =
     (case request CancelUpload (backend w) of
        (Some e, be) \<Rightarrow> (Inl e, w\<lparr>backend := be\<rparr>)
      | (None, be) \<Rightarrow> (Inr (), w\<lparr>backend := be\<rparr>))"

text \<open>
  \<open>S3OpenWrite.__exit__\<close>. \<open>ty\<close> is the exception active when the scope is left, if
  any. The method returns \<open>False\<close> (here \<open>Some False\<close>), falls off its end (Python's
  \<open>None\<close>, here \<open>None\<close>) or raises.
\<close>

definition S3OpenWrite_exit :: "exn option \<Rightarrow> writer \<Rightarrow> (exn + bool option) \<times> writer" where
  "S3OpenWrite_exit ty w =
     (if ty \<noteq> None
      then (case S3OpenWrite_termination_error w of
              (Inl e, w1) \<Rightarrow> (Inl e, w1)
            | (Inr u, w1) \<Rightarrow> (Inr (Some False), w1))
      else (case S3OpenWrite_close w of
              (Inr u, w1) \<Rightarrow> (Inr None, w1)
            | (Inl e, w1) \<Rightarrow>
                (case S3OpenWrite_termination_error w1 of
                   (Inl e2, w2) \<Rightarrow> (Inl e2, w2)
                 | (Inr u, w2) \<Rightarrow> (Inl e, w2))))"

text \<open>
  What leaves a \<open>with\<close> statement, by the language's rule: the exception \<open>__exit__\<close>
  raises if it raises one; otherwise the exception of the body, unless \<open>__exit__\<close>
  returned a true value.
\<close>

definition with_propagates :: "exn option \<Rightarrow> exn + bool option \<Rightarrow> exn option" where
  "with_propagates ty r =
     (case r of
        Inl e \<Rightarrow> Some e
      | Inr ret \<Rightarrow> (if ret = Some True then None else ty))"

text \<open>
  A sequence of \<open>write\<close> calls, one statement after the other: the first exception ends
  it.
\<close>

fun writes :: "py_value list \<Rightarrow> writer \<Rightarrow> (exn + unit) \<times> writer" where
  "writes [] w = (Inr (), w)"
| "writes (v # vs) w =
     (case S3OpenWrite_write v w of
        (Inl e, w1) \<Rightarrow> (Inl e, w1)
      | (Inr u, w1) \<Rightarrow> writes vs w1)"

text \<open>
  A whole session outside a \<open>with\<close> statement: construct the writer, write the
  values one after the other, close. It gives the writer as \<open>close\<close> has left it,
  or the first exception.
\<close>

definition session :: "(nat \<Rightarrow> exn option) \<Rightarrow> int \<Rightarrow> py_value list \<Rightarrow> exn + writer" where
  "session outbucket mps vs =
     (case S3OpenWrite_init outbucket mps of
        Inl e \<Rightarrow> Inl e
      | Inr w0 \<Rightarrow>
          (case writes vs w0 of
             (Inl e, w1) \<Rightarrow> Inl e
           | (Inr u, w1) \<Rightarrow>
               (case S3OpenWrite_close w1 of
                  (Inl e, w2) \<Rightarrow> Inl e
                | (Inr u2, w2) \<Rightarrow> Inr w2)))"

text \<open>The requests a method sends: those the store has recorded after it and not before.\<close>

definition sent_by :: "writer \<Rightarrow> writer \<Rightarrow> s3_request list" where
  "sent_by w w' = drop (length (requests (backend w))) (sent (backend w'))"

section \<open>Parallel enumeration: \<open>s3_iter_bucket\<close>\<close>

record s3key =
  key_name :: string
  key_content :: bytes

text \<open>\<open>bucket.list(prefix=prefix)\<close>: the keys of the bucket whose names start with the prefix.\<close>

definition bucket_list :: "s3key list \<Rightarrow> string \<Rightarrow> s3key list" where
  "bucket_list bucket pfx = filter (\<lambda>key. take (length pfx) (key_name key) = pfx) bucket"

definition s3_iter_bucket_process_key :: "s3key \<Rightarrow> s3key \<times> bytes" where
  "s3_iter_bucket_process_key key = (key, key_content key)"

datatype pool_state = NotCreated | Running | Terminated

text \<open>
  The \<open>for\<close> loop over the pool's results, from the consumer's side. \<open>pulls\<close> is how
  often the consumer asks the generator for a result before it abandons it (\<open>None\<close>: it
  goes on until the generator is exhausted). A generator that is abandoned stays
  suspended at its \<open>yield\<close> and is closed there: nothing after the \<open>yield\<close> runs. The
  result is what was yielded and the state the pool is left in. The running total of
  sizes and \<open>key.close()\<close> bear on neither and are left out; \<open>[]\<close> is the exhausted
  iterator, after which \<open>pool.terminate()\<close> runs, as it does after the \<open>break\<close>.
\<close>

fun iter_results ::
  "(s3key \<times> bytes) list \<Rightarrow> int \<Rightarrow> int option \<Rightarrow> nat option \<Rightarrow> (string \<times> bytes) list \<times> pool_state"
where
  "iter_results [] key_no key_limit pulls = ([], Terminated)"
| "iter_results ((key, content) # rest) key_no key_limit pulls =
     (if pulls = Some 1 then ([(key_name key, content)], Running)
      else if (case key_limit of None \<Rightarrow> False | Some l \<Rightarrow> key_no + 1 \<ge> l)
      then ([(key_name key, content)], Terminated)
      else (case iter_results rest (key_no + 1) key_limit (map_option (\<lambda>n. n - 1) pulls) of
              (ys, p) \<Rightarrow> ((key_name key, content) # ys, p)))"

record enumeration =
  yielded :: "(string \<times> bytes) list"
  submitted :: "s3key list"
  pool :: pool_state
  raised :: "exn option"

text \<open>
  \<open>s3_iter_bucket\<close>. \<open>completion workers tasks\<close> is the order in which a pool of
  that many workers delivers the results of the tasks (\<open>imap_unordered\<close>); the pool's
  constructor raises \<open>ValueError\<close> for fewer than one worker. The body of a generator
  starts at the first request for a result.
\<close>

definition s3_iter_bucket ::
  "s3key list \<Rightarrow> string \<Rightarrow> (string \<Rightarrow> bool) \<Rightarrow> int option \<Rightarrow> int \<Rightarrow>
   (int \<Rightarrow> (s3key \<times> bytes) list \<Rightarrow> (s3key \<times> bytes) list) \<Rightarrow> nat option \<Rightarrow> enumeration"
where
  "s3_iter_bucket bucket pfx accept_key key_limit workers completion pulls =
     (if pulls = Some 0
      then \<lparr>yielded = [], submitted = [], pool = NotCreated, raised = None\<rparr>
      else if workers < 1
      then \<lparr>yielded = [], submitted = [], pool = NotCreated, raised = Some ValueError\<rparr>
      else (let keys = filter (\<lambda>key. accept_key (key_name key)) (bucket_list bucket pfx)
            in case iter_results (completion workers (map s3_iter_bucket_process_key keys))
                      0 key_limit pulls of
                 (ys, p) \<Rightarrow> \<lparr>yielded = ys, submitted = keys, pool = p, raised = None\<rparr>))"

section \<open>URI resolution: \<open>ParseUri\<close>\<close>

text \<open>\<open>s.split(sep)\<close> and \<open>s.split(sep, 1)\<close> for a separator of one character.\<close>

fun split_on :: "char \<Rightarrow> string \<Rightarrow> string list" where
  "split_on sep [] = [[]]"
| "split_on sep (c # cs) =
     (if c = sep then [] # split_on sep cs
      else (case split_on sep cs of
              [] \<Rightarrow> [[c]]
            | w # ws \<Rightarrow> (c # w) # ws))"

definition split1 :: "char \<Rightarrow> string \<Rightarrow> string list" where
  "split1 sep s =
     (if sep \<in> set s
      then [takeWhile (\<lambda>c. c \<noteq> sep) s, tl (dropWhile (\<lambda>c. c \<noteq> sep) s)]
      else [s])"

text \<open>\<open>sub in s\<close> for strings.\<close>

fun contains :: "string \<Rightarrow> string \<Rightarrow> bool" where
  "contains sub [] = (sub = [])"
| "contains sub (c # cs) = (if take (length sub) (c # cs) = sub then True else contains sub cs)"

text \<open>
  \<open>urlsplit\<close> of the standard library, as far as \<open>ParseUri\<close> depends on it (the
  library of the interpreters the module was written for, 2.7 and 3.4): a scheme is the
  text before the first colon when it is made of scheme characters only and what follows
  is not a port number; after \<open>//\<close> the network location runs up to the first of
  \<open>/ ? #\<close>; a fragment and then a query are cut off the rest.
\<close>

record split_result =
  sr_scheme :: string
  netloc :: string
  path :: string
  query :: string
  fragment :: string

definition scheme_chars :: string where
  "scheme_chars = ''abcdefghijklmnopqrstuvwxyzABCDEFGHIJKLMNOPQRSTUVWXYZ0123456789+-.''"

definition lower :: "string \<Rightarrow> string" where
  "lower s =
     map (\<lambda>c. case map_of (zip ''ABCDEFGHIJKLMNOPQRSTUVWXYZ'' ''abcdefghijklmnopqrstuvwxyz'') c of
                None \<Rightarrow> c
              | Some l \<Rightarrow> l) s"

definition splitnetloc :: "string \<Rightarrow> nat \<Rightarrow> string \<times> string" where
  "splitnetloc url start =
     (let delim = fold (\<lambda>c d. let w = py_find url c start in if w \<ge> 0 then min d (nat w) else d)
                    ''/?#'' (length url)
      in (slice url start delim, drop delim url))"

definition split_scheme :: "string \<Rightarrow> string \<times> string" where
  "split_scheme url =
     (let i = py_find url (CHR '':'') 0
      in if i > 0 \<and> list_all (\<lambda>c. c \<in> set scheme_chars) (take (nat i) url)
         then (let rest = drop (nat i + 1) url
               in if take (nat i) url = ''http'' then (lower (take (nat i) url), rest)
                  else if rest = [] then (lower (take (nat i) url), rest)
                  else if list_all (\<lambda>c. c \<in> set ''0123456789'') rest then ([], url)
                  else (lower (take (nat i) url), rest))
         else ([], url))"

definition urlsplit :: "string \<Rightarrow> exn + split_result" where
  "urlsplit uri =
     (case split_scheme uri of
        (sch, url) \<Rightarrow>
          (case (if take 2 url = ''//'' then splitnetloc url 2 else ([], url)) of
             (nl, url1) \<Rightarrow>
               if (CHR ''['' \<in> set nl \<and> CHR '']'' \<notin> set nl) \<or>
                  (CHR '']'' \<in> set nl \<and> CHR ''['' \<notin> set nl)
               then Inl ValueError
               else (let (url2, frag) =
                           (if CHR ''#'' \<in> set url1
                            then (takeWhile (\<lambda>c. c \<noteq> CHR ''#'') url1,
                                  tl (dropWhile (\<lambda>c. c \<noteq> CHR ''#'') url1))
                            else (url1, []));
                         (url3, qry) =
                           (if CHR ''?'' \<in> set url2
                            then (takeWhile (\<lambda>c. c \<noteq> CHR ''?'') url2,
                                  tl (dropWhile (\<lambda>c. c \<noteq> CHR ''?'') url2))
                            else (url2, []))
                     in Inr \<lparr>sr_scheme = sch, netloc = nl, path = url3, query = qry,
                             fragment = frag\<rparr>)))"

text \<open>
  The object \<open>ParseUri.__init__\<close> builds. An attribute the constructor has not set,
  or has set to Python's \<open>None\<close>, is \<open>None\<close>.
\<close>

record parsed_uri =
  scheme :: string
  uri_path :: "string option"
  bucket_id :: "string option"
  key_id :: "string option"
  access_id :: "string option"
  access_secret :: "string option"

definition blank_uri :: "string \<Rightarrow> parsed_uri" where
  "blank_uri sch =
     \<lparr>scheme = sch, uri_path = None, bucket_id = None, key_id = None, access_id = None,
      access_secret = None\<rparr>"

text \<open>
  \<open>self.bucket_id, self.key_id = s.split('/', 1)\<close>: unpacking a list that has not two
  elements raises \<open>ValueError\<close>.
\<close>

definition unpack_bucket_key :: "parsed_uri \<Rightarrow> string \<Rightarrow> exn + parsed_uri" where
  "unpack_bucket_key p s =
     (case split1 (CHR ''/'') s of
        [b, k] \<Rightarrow> Inr (p\<lparr>bucket_id := Some b, key_id := Some k\<rparr>)
      | _ \<Rightarrow> Inl ValueError)"

text \<open>The constructor from the result of \<open>urlsplit\<close> on.\<close>

definition parse_split :: "split_result \<Rightarrow> string \<Rightarrow> exn + parsed_uri" where
  "parse_split parsed default_scheme =
     (let sch = (if sr_scheme parsed \<noteq> [] then sr_scheme parsed else default_scheme);
          loc = netloc parsed @ path parsed
      in if sch = ''hdfs''
         then (if loc = [] then Inl RuntimeError
               else Inr ((blank_uri sch)\<lparr>uri_path := Some loc\<rparr>))
         else if sch = ''s3'' \<or> sch = ''s3n''
         then (let ps = split_on (CHR ''@'') loc
               in if length ps = 1
                  then unpack_bucket_key (blank_uri sch) (ps ! 0)
                  else if length ps = 2 \<and> length (split_on (CHR '':'') (ps ! 0)) = 2
                  then (case split_on (CHR '':'') (ps ! 0) of
                          [aid, asec] \<Rightarrow>
                            unpack_bucket_key
                              ((blank_uri sch)\<lparr>access_id := Some aid, access_secret := Some asec\<rparr>)
                              (ps ! 1)
                        | _ \<Rightarrow> Inl ValueError)
                  else Inl RuntimeError)
         else if sch = ''file''
         then (if loc = [] then Inl RuntimeError
               else Inr ((blank_uri sch)\<lparr>uri_path := Some loc\<rparr>))
         else Inl NotImplementedError)"

text \<open>\<open>ParseUri.__init__\<close>; \<open>nt\<close> says whether \<open>os.name\<close> is \<open>'nt'\<close>.\<close>

definition ParseUri :: "bool \<Rightarrow> string \<Rightarrow> string \<Rightarrow> exn + parsed_uri" where
  "ParseUri nt uri default_scheme =
     (let uri1 = (if nt then (if contains ''://'' uri then uri else ''file://'' @ uri) else uri)
      in case urlsplit uri1 of
           Inl e \<Rightarrow> Inl e
         | Inr parsed \<Rightarrow> parse_split parsed default_scheme)"

section \<open>Positional reads: \<open>S3OpenRead.read\<close>\<close>

text \<open>
  The key a reader holds: the object's bytes and, while a response is open on the key,
  the position reached in it (\<open>None\<close>: no response is open, as before the first read
  and after the key has been closed). \<open>cursor\<close> is where the next read starts: the
  client opens a response at the start of the object when none is open.
\<close>

record read_key =
  content :: bytes
  resp :: "nat option"

definition cursor :: "read_key \<Rightarrow> nat" where
  "cursor k = (case resp k of None \<Rightarrow> 0 | Some p \<Rightarrow> p)"

text \<open>
  \<open>boto_read\<close> is the client's \<open>Key.read(size)\<close>, which is not part of this module:
  it opens a response if none is open, reads all that is left for size 0 and at most
  \<open>size\<close> bytes for a positive size, and closes the key when the read has returned no
  data, so that the read after it starts over at the first byte. The reader never
  passes on a negative size, so the size is a natural number here.
\<close>

definition boto_read :: "nat \<Rightarrow> read_key \<Rightarrow> bytes \<times> read_key" where
  "boto_read sz k =
     (let p = cursor k;
          data = (if sz = 0 then drop p (content k) else take sz (drop p (content k)))
      in if data = [] then (data, k\<lparr>resp := None\<rparr>)
         else (data, k\<lparr>resp := Some (p + length data)\<rparr>))"

text \<open>\<open>S3OpenRead.read\<close>; the size is Python's \<open>None\<close> or an integer.\<close>

definition S3OpenRead_read :: "int option \<Rightarrow> read_key \<Rightarrow> bytes \<times> read_key" where
  "S3OpenRead_read sz k =
     (let size1 = (case sz of
                     None \<Rightarrow> 0
                   | Some n \<Rightarrow> if n = 0 then 0 else if n < 0 then 0 else n)
      in boto_read (nat size1) k)"

section \<open>Notions used in the statements\<close>

text \<open>
  What holds of a writer between two calls, whatever the store answers: the parts the
  store holds are numbered 1, 2, ... in upload order, \<open>parts\<close> counts them, the parts
  followed by the pending lines are all the bytes accepted so far, and the two counters
  are the lengths they are meant to be.
\<close>

definition consistent :: "writer \<Rightarrow> bytes \<Rightarrow> bool" where
  "consistent w acc \<longleftrightarrow>
     map fst (uploaded_parts (backend w)) = [1..parts w]
     \<and> parts w = int (length (uploaded_parts (backend w)))
     \<and> concat (map snd (uploaded_parts (backend w))) @ concat (lines w) = acc
     \<and> chunk_bytes w = int (length (concat (lines w)))
     \<and> total_size w = int (length acc)"

text \<open>How many of the requests finalize or abort the upload.\<close>

definition finishes :: "s3_request list \<Rightarrow> nat" where
  "finishes rs = length (filter (\<lambda>q. q = CompleteUpload \<or> q = CancelUpload) rs)"

text \<open>A store that fails the second request it gets and no other.\<close>

definition failing_once :: "nat \<Rightarrow> exn option" where
  "failing_once n = (if n = 1 then Some (BackendError 1) else None)"

text \<open>
  The exception that sets the teardown off: the one active when the scope is left, or
  else the one \<open>close\<close> has raised.
\<close>

definition triggering :: "exn option \<Rightarrow> exn + unit \<Rightarrow> exn option" where
  "triggering ty rc =
     (case ty of
        Some e \<Rightarrow> Some e
      | None \<Rightarrow> (case rc of Inl e \<Rightarrow> Some e | Inr u \<Rightarrow> None))"

subsection \<open>Example stores and writers\<close>

text \<open>A store that answers the first request it gets and fails every later one.\<close>

definition refusing :: "nat \<Rightarrow> exn option" where
  "refusing n = (if n = 0 then None else Some (BackendError n))"

text \<open>The writer on that store right after its construction, nothing written.\<close>

definition idle_writer :: writer where
  "idle_writer =
     \<lparr>backend = \<lparr>faults = refusing, requests = [(InitiateUpload, None)]\<rparr>,
      min_part_size = 100, lines = [], total_size = 0, chunk_bytes = 0, parts = 0\<rparr>"

text \<open>The same writer after \<open>write(b'x')\<close>: one byte pending, under the threshold.\<close>

definition pending_writer :: writer where
  "pending_writer =
     \<lparr>backend = \<lparr>faults = refusing, requests = [(InitiateUpload, None)]\<rparr>,
      min_part_size = 100, lines = [''x''], total_size = 1, chunk_bytes = 1, parts = 0\<rparr>"

subsection \<open>Example buckets and pools\<close>

definition two_keys :: "s3key list" where
  "two_keys = [\<lparr>key_name = ''a'', key_content = ''1''\<rparr>, \<lparr>key_name = ''b'', key_content = ''22''\<rparr>]"

text \<open>A pool that delivers results in the order of the tasks.\<close>

definition in_order :: "int \<Rightarrow> (s3key \<times> bytes) list \<Rightarrow> (s3key \<times> bytes) list" where
  "in_order workers tasks = tasks"

text \<open>The scheme the constructor settles on.\<close>

definition resolved_scheme :: "split_result \<Rightarrow> string \<Rightarrow> string" where
  "resolved_scheme parsed default_scheme =
     (if sr_scheme parsed \<noteq> [] then sr_scheme parsed else default_scheme)"

section \<open>Verification of the line reader\<close>

lemma find_idx_none: "find_idx c xs i = - 1 \<longleftrightarrow> c \<notin> set xs"
proof (induction xs arbitrary: i)
  case Nil
  show ?case by simp
next
  case (Cons x xs)
  have "int i \<noteq> - 1" by simp
  with Cons show ?case by auto
qed

lemma find_idx_hit:
  assumes "find_idx c xs i \<noteq> - 1"
  shows "\<exists>j. find_idx c xs i = int (i + j) \<and> j < length xs \<and> xs ! j = c \<and> c \<notin> set (take j xs)"
  using assms
proof (induction xs arbitrary: i)
  case Nil
  then show ?case by simp
next
  case (Cons x xs)
  show ?case
  proof (cases "x = c")
    case True
    then have "find_idx c (x # xs) i = int (i + 0) \<and> 0 < length (x # xs) \<and> (x # xs) ! 0 = c
      \<and> c \<notin> set (take 0 (x # xs))" by simp
    then show ?thesis by blast
  next
    case False
    with Cons.prems have "find_idx c xs (Suc i) \<noteq> - 1" by simp
    from Cons.IH [OF this] obtain j where
      j: "find_idx c xs (Suc i) = int (Suc i + j)" "j < length xs" "xs ! j = c" "c \<notin> set (take j xs)"
      by blast
    with False have "find_idx c (x # xs) i = int (i + Suc j) \<and> Suc j < length (x # xs)
      \<and> (x # xs) ! Suc j = c \<and> c \<notin> set (take (Suc j) (x # xs))" by simp
    then show ?thesis by blast
  qed
qed

lemma scan_step:
  assumes ne: "py_find buf newline start + 1 \<noteq> 0" and le: "start \<le> length buf"
  defines "e \<equiv> nat (py_find buf newline start + 1)"
  shows "slice buf start e \<noteq> []" and "last (slice buf start e) = newline"
    and "slice buf start e @ drop e buf = drop start buf" and "e \<le> length buf"
proof -
  have "find_idx newline (drop start buf) start \<noteq> - 1"
    using ne by (simp add: py_find_def)
  from find_idx_hit [OF this] obtain j where
    j: "find_idx newline (drop start buf) start = int (start + j)" "j < length (drop start buf)"
       "drop start buf ! j = newline"
    by blast
  have e: "e = start + Suc j"
    using j(1) by (simp add: e_def py_find_def)
  have sl: "slice buf start e = take (Suc j) (drop start buf)"
    by (simp add: slice_def e)
  show "slice buf start e \<noteq> []"
    using j(2) by (auto simp: sl)
  show "last (slice buf start e) = newline"
    using j(2,3) by (simp add: sl take_Suc_conv_app_nth)
  have "drop e buf = drop (Suc j) (drop start buf)"
    by (simp add: e add.commute)
  then show "slice buf start e @ drop e buf = drop start buf"
    by (simp only: sl append_take_drop_id)
  show "e \<le> length buf"
    using j(2) by (simp add: e)
qed

lemma scan_lines_spec:
  "start \<le> length buf \<Longrightarrow> scan_lines buf start = (ys, rest) \<Longrightarrow>
     concat ys @ rest = drop start buf \<and> (\<forall>y\<in>set ys. y \<noteq> [] \<and> last y = newline)
     \<and> newline \<notin> set rest"
proof (induction buf start arbitrary: ys rest rule: scan_lines.induct)
  case (1 buf start)
  show ?case
  proof (cases "py_find buf newline start + 1 = 0")
    case True
    then have "find_idx newline (drop start buf) start = - 1"
      by (simp add: py_find_def)
    then have "newline \<notin> set (drop start buf)"
      by (simp add: find_idx_none)
    moreover have "ys = [] \<and> rest = drop start buf"
      using "1.prems"(2) True by (simp add: scan_lines.simps [of buf start])
    ultimately show ?thesis by simp
  next
    case False
    define e where "e = nat (py_find buf newline start + 1)"
    obtain ys' rest' where rec: "scan_lines buf e = (ys', rest')"
      by (cases "scan_lines buf e")
    have nz: "py_find buf newline start + 1 \<noteq> 0" by (rule False)
    have st: "slice buf start e \<noteq> []" "last (slice buf start e) = newline"
      "slice buf start e @ drop e buf = drop start buf" "e \<le> length buf"
      using scan_step [OF nz "1.prems"(1)] by (simp_all add: e_def)
    have ih: "concat ys' @ rest' = drop e buf \<and> (\<forall>y\<in>set ys'. y \<noteq> [] \<and> last y = newline)
      \<and> newline \<notin> set rest'"
      using "1.IH" [OF refl nz _ _, of ys' rest'] st(4) rec by (simp add: e_def)
    have res: "ys = slice buf start e # ys' \<and> rest = rest'"
      using "1.prems"(2) nz rec by (simp add: scan_lines.simps [of buf start] e_def Let_def)
    show ?thesis
      using res ih st by simp
  qed
qed

lemma iter_chunks_spec:
  "concat (iter_chunks chunks buf) = buf @ concat chunks
   \<and> (\<forall>l\<in>set (butlast (iter_chunks chunks buf)). last l = newline)
   \<and> [] \<notin> set (iter_chunks chunks buf)"
proof (induction chunks arbitrary: buf)
  case Nil
  show ?case by simp
next
  case (Cons chunk chunks)
  obtain ys buf' where sc: "scan_lines (buf @ chunk) 0 = (ys, buf')"
    by (cases "scan_lines (buf @ chunk) 0")
  from scan_lines_spec [OF _ sc]
  have s: "concat ys @ buf' = buf @ chunk" "\<forall>y\<in>set ys. y \<noteq> [] \<and> last y = newline"
    by simp_all
  note ih = Cons.IH [of buf']
  have eq: "iter_chunks (chunk # chunks) buf = ys @ iter_chunks chunks buf'"
    using sc by simp
  have "concat (ys @ iter_chunks chunks buf') = (concat ys @ buf') @ concat chunks"
    using ih by simp
  also have "\<dots> = (buf @ chunk) @ concat chunks"
    by (simp only: s(1))
  finally have c: "concat (ys @ iter_chunks chunks buf') = buf @ concat (chunk # chunks)"
    by simp
  have b: "\<forall>l\<in>set (butlast (ys @ iter_chunks chunks buf')). last l = newline"
    using ih s(2) by (auto simp: butlast_append dest: in_set_butlastD)
  have n: "[] \<notin> set (ys @ iter_chunks chunks buf')"
    using ih s(2) by auto
  show ?case
    unfolding eq using c b n by blast
qed

text \<open>
  Claim C2. For every sequence of chunks, the lines \<open>s3_iter_lines\<close> yields,
  concatenated, are the concatenation of the chunks; every yielded line but possibly the
  last ends in a newline; no yielded line is empty; and when the chunks hold no byte at
  all, nothing is yielded.
\<close>

theorem s3_iter_lines_yields:
  "\<exists>ls. s3_iter_lines (BotoKey chunks) = Inr ls
     \<and> concat ls = concat chunks
     \<and> (\<forall>l\<in>set (butlast ls). l \<noteq> [] \<and> last l = newline)
     \<and> [] \<notin> set ls
     \<and> (concat chunks = [] \<longrightarrow> ls = [])"
proof -
  let ?ls = "iter_chunks chunks []"
  note sp = iter_chunks_spec [of chunks "[]"]
  have e: "concat chunks = [] \<longrightarrow> ?ls = []"
  proof
    assume "concat chunks = []"
    then have "concat ?ls = []" using sp by simp
    then have "\<forall>l\<in>set ?ls. l = []" by simp
    with sp show "?ls = []" by (cases ?ls) auto
  qed
  have b: "\<forall>l\<in>set (butlast ?ls). l \<noteq> [] \<and> last l = newline"
    using sp by (auto dest: in_set_butlastD)
  show ?thesis
    using sp e b by (simp add: s3_iter_lines_def)
qed

theorem s3_iter_lines_yields_witness:
  "s3_iter_lines (BotoKey [''ab'', newline # ''cd'' @ [newline, newline], ''x'', []])
     = Inr [''ab'' @ [newline], ''cd'' @ [newline], [newline], ''x'']
   \<and> s3_iter_lines (BotoKey [[], []]) = Inr []"
  using s3_iter_lines_yields [of "[''ab'', newline # ''cd'' @ [newline, newline], ''x'', []]"]
    s3_iter_lines_yields [of "[[], []]"]
  by (simp add: s3_iter_lines_def scan_lines.simps py_find_def slice_def newline_def)

section \<open>Verification of the chunked writer\<close>

lemma uploaded_parts_request:
  "request r be = (out, be') \<Longrightarrow>
     uploaded_parts be' = uploaded_parts be @ (case part_of (r, out) of None \<Rightarrow> [] | Some p \<Rightarrow> [p])"
  by (auto simp: request_def uploaded_parts_def map_filter_def Let_def split: option.splits)

lemma upload_succeeds:
  "request (UploadPart n d) be = (None, be') \<Longrightarrow> uploaded_parts be' = uploaded_parts be @ [(n, d)]"
  by (drule uploaded_parts_request) simp

lemma request_fails:
  "request r be = (Some e, be') \<Longrightarrow> uploaded_parts be' = uploaded_parts be"
  by (drule uploaded_parts_request) (cases r; simp)

lemma request_other:
  "request r be = (out, be') \<Longrightarrow> r = CompleteUpload \<or> r = CancelUpload \<or> r = InitiateUpload \<Longrightarrow>
     uploaded_parts be' = uploaded_parts be"
  by (drule uploaded_parts_request) auto

lemma init_consistent:
  "S3OpenWrite_init outbucket mps = Inr w \<Longrightarrow> consistent w []"
  by (auto simp: S3OpenWrite_init_def consistent_def request_def uploaded_parts_def
      map_filter_def Let_def split: option.splits)

lemma upto_snoc: "0 \<le> n \<Longrightarrow> [1..n + 1] = [1..n] @ [n + 1]"
  by (simp add: upto_rec2)

lemma upto_snoc_length: "[1..1 + int k] = [1..int k] @ [int k + 1]"
  using upto_snoc [of "int k"] by (simp add: add.commute)

lemma write_consistent:
  assumes c: "consistent w acc" and b: "as_binary v = Inr b"
    and wr: "S3OpenWrite_write v w = (r, w')"
  shows "consistent w' (acc @ b)"
proof -
  define w1 where "w1 = w\<lparr>lines := lines w @ [b],
                       chunk_bytes := chunk_bytes w + int (length b),
                       total_size := total_size w + int (length b)\<rparr>"
  have c1: "consistent w1 (acc @ b)"
    using c by (simp add: consistent_def w1_def)
  show ?thesis
  proof (cases "chunk_bytes w1 \<ge> min_part_size w1")
    case False
    then have "w' = w1"
      using wr b by (simp add: S3OpenWrite_write_def w1_def Let_def)
    with c1 show ?thesis by simp
  next
    case True
    obtain out be where rq: "request (UploadPart (parts w1 + 1) (concat (lines w1))) (backend w1) = (out, be)"
      by (cases "request (UploadPart (parts w1 + 1) (concat (lines w1))) (backend w1)")
    show ?thesis
    proof (cases out)
      case (Some e)
      then have w': "w' = w1\<lparr>backend := be\<rparr>"
        using wr b True rq by (simp add: S3OpenWrite_write_def w1_def [symmetric] Let_def)
      have "uploaded_parts be = uploaded_parts (backend w1)"
        using rq Some by (simp add: request_fails)
      then show ?thesis using c1 by (simp add: consistent_def w')
    next
      case None
      then have w': "w' = w1\<lparr>backend := be, parts := parts w1 + 1, lines := [], chunk_bytes := 0\<rparr>"
        using wr b True rq by (simp add: S3OpenWrite_write_def w1_def [symmetric] Let_def)
      have up: "uploaded_parts be = uploaded_parts (backend w1) @ [(parts w1 + 1, concat (lines w1))]"
        using rq None by (simp add: upload_succeeds)
      have "0 \<le> parts w1" using c1 by (simp add: consistent_def)
      then show ?thesis using c1 by (simp add: consistent_def w' up upto_snoc upto_snoc_length)
    qed
  qed
qed

lemma write_rejected:
  "as_binary v = Inl e \<Longrightarrow> S3OpenWrite_write v w = (Inl e, w)"
  by (simp add: S3OpenWrite_write_def)

lemma writes_consistent:
  "consistent w acc \<Longrightarrow> writes (map PyBytes bs) w = (r, w') \<Longrightarrow>
     \<exists>done. consistent w' (acc @ concat done) \<and> (r = Inr () \<longrightarrow> done = bs)"
proof (induction bs arbitrary: w acc)
  case Nil
  then have "consistent w' (acc @ concat []) \<and> (r = Inr () \<longrightarrow> [] = ([]::bytes list))" by simp
  then show ?case by blast
next
  case (Cons b bs)
  obtain r1 w1 where w1: "S3OpenWrite_write (PyBytes b) w = (r1, w1)"
    by (cases "S3OpenWrite_write (PyBytes b) w")
  have c1: "consistent w1 (acc @ b)"
    using write_consistent [OF Cons.prems(1) _ w1] by simp
  show ?case
  proof (cases r1)
    case (Inl e)
    then have "w' = w1 \<and> r = Inl e" using Cons.prems(2) w1 by simp
    then have "consistent w' (acc @ concat [b]) \<and> (r = Inr () \<longrightarrow> [b] = b # bs)"
      using c1 by simp
    then show ?thesis by blast
  next
    case (Inr u)
    then have "writes (map PyBytes bs) w1 = (r, w')" using Cons.prems(2) w1 by simp
    from Cons.IH [OF c1 this] obtain d where
      d: "consistent w' ((acc @ b) @ concat d)" "r = Inr () \<longrightarrow> d = bs" by blast
    then have "consistent w' (acc @ concat (b # d)) \<and> (r = Inr () \<longrightarrow> b # d = b # bs)" by simp
    then show ?thesis by blast
  qed
qed

lemma close_consistent:
  assumes c: "consistent w acc" and cl: "S3OpenWrite_close w = (Inr (), w')"
  shows "map fst (uploaded_parts (backend w')) = [1..int (length (uploaded_parts (backend w')))]
         \<and> concat (map snd (uploaded_parts (backend w'))) = acc"
proof -
  obtain r1 w1 where u: "upload_last_part w = (r1, w1)"
    by (cases "upload_last_part w")
  have r1: "r1 = Inr ()"
    using cl u by (cases r1) (simp_all add: S3OpenWrite_close_def)
  have p1: "map fst (uploaded_parts (backend w1)) = [1..int (length (uploaded_parts (backend w1)))]
         \<and> concat (map snd (uploaded_parts (backend w1))) = acc"
  proof (cases "concat (lines w) = []")
    case True
    then have "w1 = w" using u by (simp add: upload_last_part_def)
    then show ?thesis using c True by (simp add: consistent_def)
  next
    case False
    obtain out be where rq: "request (UploadPart (parts w + 1) (concat (lines w))) (backend w) = (out, be)"
      by (cases "request (UploadPart (parts w + 1) (concat (lines w))) (backend w)")
    have out: "out = None"
      using u r1 False rq by (cases out) (simp_all add: upload_last_part_def)
    have w1: "w1 = w\<lparr>backend := be\<rparr>"
      using u False rq out by (simp add: upload_last_part_def)
    have up: "uploaded_parts be = uploaded_parts (backend w) @ [(parts w + 1, concat (lines w))]"
      using rq out by (simp add: upload_succeeds)
    have "0 \<le> parts w" using c by (simp add: consistent_def)
    then show ?thesis using c by (simp add: consistent_def w1 up upto_snoc upto_snoc_length)
  qed
  obtain out2 be2 where rq2:
    "request (if total_size w1 \<noteq> 0 then CompleteUpload else CancelUpload) (backend w1) = (out2, be2)"
    by (cases "request (if total_size w1 \<noteq> 0 then CompleteUpload else CancelUpload) (backend w1)")
  have "w' = w1\<lparr>backend := be2\<rparr>"
    using cl u r1 rq2 by (cases out2) (simp_all add: S3OpenWrite_close_def)
  moreover have "uploaded_parts be2 = uploaded_parts (backend w1)"
    using rq2 by (rule request_other) simp
  ultimately show ?thesis using p1 by simp
qed

text \<open>
  Claim C1. For every sequence of \<open>write\<close> calls with byte strings followed by
  \<open>close\<close>, all returning normally, the parts uploaded during the writes and at
  close carry the part numbers 1, 2, 3, ... in upload order, and concatenated in that
  order they are the concatenation of the written byte strings.
\<close>

theorem session_uploads_written_bytes:
  assumes "session outbucket mps (map PyBytes bs) = Inr w"
  shows "map fst (uploaded_parts (backend w)) = [1..int (length (uploaded_parts (backend w)))]
         \<and> concat (map snd (uploaded_parts (backend w))) = concat bs"
proof -
  from assms obtain w0 w1 where
    i: "S3OpenWrite_init outbucket mps = Inr w0" and
    ws: "writes (map PyBytes bs) w0 = (Inr (), w1)" and
    cl: "S3OpenWrite_close w1 = (Inr (), w)"
    by (auto simp: session_def split: sum.splits prod.splits)
  from writes_consistent [OF init_consistent [OF i] ws]
  have "consistent w1 (concat bs)" by auto
  from close_consistent [OF this cl] show ?thesis .
qed

theorem session_uploads_written_bytes_witness:
  "\<exists>w. session (\<lambda>n. None) 3 (map PyBytes [''ab'', ''cd'', ''e'']) = Inr w
     \<and> uploaded_parts (backend w) = [(1, ''abcd''), (2, ''e'')]
     \<and> map fst (uploaded_parts (backend w)) = [1..2]
     \<and> concat (map snd (uploaded_parts (backend w))) = ''abcde''"
proof -
  obtain w where s: "session (\<lambda>n. None) 3 (map PyBytes [''ab'', ''cd'', ''e'']) = Inr w"
    and u: "uploaded_parts (backend w) = [(1, ''abcd''), (2, ''e'')]"
    by (simp add: session_def S3OpenWrite_init_def S3OpenWrite_write_def S3OpenWrite_close_def
        upload_last_part_def request_def uploaded_parts_def map_filter_def Let_def)
  from session_uploads_written_bytes [OF s] u s show ?thesis by auto
qed

lemmas writer_defs = S3OpenWrite_init_def S3OpenWrite_write_def S3OpenWrite_close_def
  upload_last_part_def S3OpenWrite_termination_error_def S3OpenWrite_exit_def request_def
  sent_by_def sent_def

subsection \<open>One write of three thresholds\<close>

text \<open>
  Claim C5 says that one write of three times the threshold makes the writer emit at
  least two parts before the flush of \<open>close\<close>. With threshold 1 and the three bytes
  \<open>abc\<close> the whole session sends one part, which holds all three bytes.
\<close>

theorem single_write_counterexample:
  "map_sum id (\<lambda>w. requests (backend w)) (session (\<lambda>n. None) 1 [PyBytes ''abc''])
     = Inr [(InitiateUpload, None), (UploadPart 1 ''abc'', None), (CompleteUpload, None)]
   \<and> map_sum id (\<lambda>w. length (uploaded_parts (backend w))) (session (\<lambda>n. None) 1 [PyBytes ''abc''])
     = Inr 1"
  by (simp add: session_def writer_defs uploaded_parts_def map_filter_def Let_def)

text \<open>
  Claim C5, amended. For every threshold \<open>T > 0\<close>, a session of one write of
  \<open>3T\<close> bytes followed by \<open>close\<close>, both returning normally, uploads exactly
  one part: the write sends the whole payload as part 1, and \<open>close\<close> uploads
  nothing and finalizes.
\<close>

theorem single_write_one_part:
  assumes T: "0 < T" and len: "int (length b) = 3 * T"
    and i: "S3OpenWrite_init outbucket T = Inr w0"
    and wr: "S3OpenWrite_write (PyBytes b) w0 = (Inr (), w1)"
    and cl: "S3OpenWrite_close w1 = (Inr (), w2)"
  shows "sent_by w0 w1 = [UploadPart 1 b] \<and> sent_by w1 w2 = [CompleteUpload]
         \<and> uploaded_parts (backend w2) = [(1, b)]"
proof -
  have w0: "w0 = \<lparr>backend = \<lparr>faults = outbucket, requests = [(InitiateUpload, None)]\<rparr>,
      min_part_size = T, lines = [], total_size = 0, chunk_bytes = 0, parts = 0\<rparr>"
    using i by (simp add: S3OpenWrite_init_def request_def Let_def split: option.splits)
  have ge: "T \<le> int (length b)" using T len by simp
  have o1: "outbucket (Suc 0) = None"
    using wr ge by (simp add: w0 S3OpenWrite_write_def request_def Let_def split: option.splits)
  have w1: "w1 = \<lparr>backend = \<lparr>faults = outbucket,
        requests = [(InitiateUpload, None), (UploadPart 1 b, None)]\<rparr>,
      min_part_size = T, lines = [], total_size = int (length b), chunk_bytes = 0, parts = 1\<rparr>"
    using wr ge o1 by (simp add: w0 S3OpenWrite_write_def request_def Let_def)
  have nz: "int (length b) \<noteq> 0" using T len by simp
  have o2: "outbucket (Suc (Suc 0)) = None"
    using cl nz by (simp add: w1 S3OpenWrite_close_def upload_last_part_def request_def Let_def
        split: option.splits)
  have w2: "w2 = \<lparr>backend = \<lparr>faults = outbucket,
        requests = [(InitiateUpload, None), (UploadPart 1 b, None), (CompleteUpload, None)]\<rparr>,
      min_part_size = T, lines = [], total_size = int (length b), chunk_bytes = 0, parts = 1\<rparr>"
    using cl nz o2 by (simp add: w1 S3OpenWrite_close_def upload_last_part_def request_def Let_def)
  show ?thesis
    by (simp add: w0 w1 w2 sent_by_def sent_def uploaded_parts_def map_filter_def)
qed

theorem single_write_one_part_witness:
  "\<exists>w0 w1 w2. S3OpenWrite_init (\<lambda>n. None) 2 = Inr w0
     \<and> S3OpenWrite_write (PyBytes ''abcdef'') w0 = (Inr (), w1)
     \<and> S3OpenWrite_close w1 = (Inr (), w2)
     \<and> sent_by w0 w1 = [UploadPart 1 ''abcdef''] \<and> sent_by w1 w2 = [CompleteUpload]
     \<and> uploaded_parts (backend w2) = [(1, ''abcdef'')]"
proof -
  obtain w0 where i: "S3OpenWrite_init (\<lambda>n. None) 2 = Inr w0"
    by (simp add: S3OpenWrite_init_def request_def)
  obtain w1 where wr: "S3OpenWrite_write (PyBytes ''abcdef'') w0 = (Inr (), w1)"
    using i by (auto simp: S3OpenWrite_init_def S3OpenWrite_write_def request_def Let_def)
  obtain w2 where cl: "S3OpenWrite_close w1 = (Inr (), w2)"
    using i wr by (auto simp: writer_defs Let_def)
  have "(0::int) < 2" and "int (length ''abcdef'') = 3 * 2" by simp_all
  from single_write_one_part [OF this i wr cl] i wr cl show ?thesis by blast
qed


subsection \<open>What close sends\<close>

lemma write_keeps_consistent:
  assumes c: "consistent w acc" and wr: "S3OpenWrite_write v w = (r, w')"
  shows "\<exists>acc'. consistent w' acc'"
proof (cases "as_binary v")
  case (Inl e)
  then have "w' = w" using wr by (simp add: write_rejected)
  with c show ?thesis by blast
next
  case (Inr b)
  from write_consistent [OF c Inr wr] show ?thesis by blast
qed

lemma writes_keep_consistent:
  "consistent w acc \<Longrightarrow> writes vs w = (r, w') \<Longrightarrow> \<exists>acc'. consistent w' acc'"
proof (induction vs arbitrary: w acc)
  case Nil
  then show ?case by auto
next
  case (Cons v vs)
  obtain r1 w1 where w1: "S3OpenWrite_write v w = (r1, w1)"
    by (cases "S3OpenWrite_write v w")
  from write_keeps_consistent [OF Cons.prems(1) w1] obtain a1 where c1: "consistent w1 a1"
    by blast
  show ?case
  proof (cases r1)
    case (Inl e)
    then have "w' = w1" using Cons.prems(2) w1 by simp
    with c1 show ?thesis by blast
  next
    case (Inr u)
    then have "writes vs w1 = (r, w')" using Cons.prems(2) w1 by simp
    from Cons.IH [OF c1 this] show ?thesis .
  qed
qed

lemma writes_empty_payloads:
  "consistent w acc \<Longrightarrow> list_all (\<lambda>v. as_binary v = Inr []) vs \<Longrightarrow> writes vs w = (r, w') \<Longrightarrow>
     consistent w' acc"
proof (induction vs arbitrary: w)
  case Nil
  then show ?case by simp
next
  case (Cons v vs)
  obtain r1 w1 where w1: "S3OpenWrite_write v w = (r1, w1)"
    by (cases "S3OpenWrite_write v w")
  have "as_binary v = Inr []" using Cons.prems(2) by simp
  from write_consistent [OF Cons.prems(1) this w1] have c1: "consistent w1 acc" by simp
  show ?case
  proof (cases r1)
    case (Inl e)
    then have "w' = w1" using Cons.prems(3) w1 by simp
    with c1 show ?thesis by simp
  next
    case (Inr u)
    then have "writes vs w1 = (r, w')" using Cons.prems(3) w1 by simp
    from Cons.IH [OF c1 _ this] Cons.prems(2) show ?thesis by simp
  qed
qed

lemma consistent_no_bytes:
  assumes "consistent w acc" and "total_size w = 0"
  shows "concat (lines w) = []"
proof -
  have "acc = []" using assms by (simp add: consistent_def)
  moreover have "concat (map snd (uploaded_parts (backend w))) @ concat (lines w) = acc"
    using assms(1) by (simp only: consistent_def)
  ultimately have "concat (map snd (uploaded_parts (backend w))) @ concat (lines w) = []"
    by (simp only:)
  then show ?thesis by (simp only: append_is_Nil_conv)
qed

text \<open>The requests \<open>close\<close> sends from any state of the writer.\<close>

lemma close_sends:
  assumes cl: "S3OpenWrite_close w = (rc, w')"
  shows "sent_by w w' =
     (if concat (lines w) \<noteq> [] then [UploadPart (parts w + 1) (concat (lines w))] else [])
     @ (if isl (fst (upload_last_part w)) then []
        else [if total_size w \<noteq> 0 then CompleteUpload else CancelUpload])"
  using cl
  by (auto simp: S3OpenWrite_close_def upload_last_part_def request_def sent_by_def sent_def
      Let_def split: option.splits if_splits)

text \<open>
  Claim C3 says that \<open>close\<close> invokes exactly one of finalize and abort in every
  session. On a store that fails the upload of the pending byte, \<open>close\<close> raises
  after the upload request and sends neither.
\<close>

theorem close_pending_upload_fails_counterexample:
  "S3OpenWrite_init refusing 100 = Inr idle_writer
   \<and> S3OpenWrite_write (PyBytes ''x'') idle_writer = (Inr (), pending_writer)
   \<and> S3OpenWrite_close pending_writer =
       (Inl (BackendError 1),
        pending_writer\<lparr>backend := \<lparr>faults = refusing,
          requests = [(InitiateUpload, None), (UploadPart 1 ''x'', Some (BackendError 1))]\<rparr>\<rparr>)"
  by (simp add: idle_writer_def pending_writer_def refusing_def writer_defs Let_def)

text \<open>
  Claim C3, amended. In a session whose writes were all of empty byte strings the total
  is zero; when the total is zero, \<open>close\<close> sends the abort and nothing else (no
  part, no finalize); and in every session \<open>close\<close> sends exactly one of finalize
  and abort, unless its upload of the pending bytes fails, in which case it sends
  neither.
\<close>

theorem close_finalizes_or_aborts:
  assumes i: "S3OpenWrite_init outbucket mps = Inr w0"
    and ws: "writes vs w0 = (r, w)"
    and cl: "S3OpenWrite_close w = (rc, w')"
  shows "(list_all (\<lambda>v. as_binary v = Inr []) vs \<longrightarrow> total_size w = 0)
     \<and> (total_size w = 0 \<longrightarrow> sent_by w w' = [CancelUpload])
     \<and> finishes (sent_by w w') = (if isl (fst (upload_last_part w)) then 0 else 1)"
proof -
  note c0 = init_consistent [OF i]
  have a: "list_all (\<lambda>v. as_binary v = Inr []) vs \<longrightarrow> total_size w = 0"
  proof
    assume "list_all (\<lambda>v. as_binary v = Inr []) vs"
    from writes_empty_payloads [OF c0 this ws] show "total_size w = 0"
      by (simp add: consistent_def)
  qed
  from writes_keep_consistent [OF c0 ws] obtain acc where c: "consistent w acc" by blast
  note s = close_sends [OF cl]
  have b: "total_size w = 0 \<longrightarrow> sent_by w w' = [CancelUpload]"
  proof
    assume z: "total_size w = 0"
    have e: "concat (lines w) = []" by (rule consistent_no_bytes [OF c z])
    then have "\<not> isl (fst (upload_last_part w))" by (simp add: upload_last_part_def)
    with s e z show "sent_by w w' = [CancelUpload]" by simp
  qed
  have f: "finishes (sent_by w w') = (if isl (fst (upload_last_part w)) then 0 else 1)"
    unfolding s by (simp add: finishes_def)
  from a b f show ?thesis by blast
qed

theorem close_finalizes_or_aborts_witness:
  "\<exists>w w'. S3OpenWrite_init (\<lambda>n. None) 100 = Inr w
     \<and> writes [PyBytes [], PyBytes []] w = (Inr (), w\<lparr>lines := [[], []]\<rparr>)
     \<and> S3OpenWrite_close (w\<lparr>lines := [[], []]\<rparr>) = (Inr (), w')
     \<and> total_size (w\<lparr>lines := [[], []]\<rparr>) = 0
     \<and> sent_by (w\<lparr>lines := [[], []]\<rparr>) w' = [CancelUpload]
     \<and> finishes (sent_by (w\<lparr>lines := [[], []]\<rparr>) w') = 1"
proof -
  obtain w where i: "S3OpenWrite_init (\<lambda>n. None) 100 = Inr w"
    by (simp add: S3OpenWrite_init_def request_def)
  let ?w1 = "w\<lparr>lines := [[], []]\<rparr>"
  have ws: "writes [PyBytes [], PyBytes []] w = (Inr (), ?w1)"
    using i by (auto simp: S3OpenWrite_init_def S3OpenWrite_write_def request_def Let_def)
  obtain w' where cl: "S3OpenWrite_close ?w1 = (Inr (), w')"
    using i by (auto simp: writer_defs Let_def)
  have e: "list_all (\<lambda>v. as_binary v = Inr []) [PyBytes [], PyBytes []]" by simp
  have u: "\<not> isl (fst (upload_last_part ?w1))" by (simp add: upload_last_part_def)
  from close_finalizes_or_aborts [OF i ws cl] e u
  have "total_size ?w1 = 0 \<and> sent_by ?w1 w' = [CancelUpload] \<and> finishes (sent_by ?w1 w') = 1"
    by (simp add: finishes_def)
  with i ws cl show ?thesis by blast
qed


subsection \<open>Leaving the scope\<close>

lemma termination_error_sends:
  assumes "S3OpenWrite_termination_error w = (r, w')"
  shows "sent_by w w' = [CancelUpload]"
    and "\<exists>out. requests (backend w') = requests (backend w) @ [(CancelUpload, out)]"
    and "r = (case snd (last (requests (backend w'))) of None \<Rightarrow> Inr () | Some e \<Rightarrow> Inl e)"
  using assms
  by (auto simp: S3OpenWrite_termination_error_def request_def sent_by_def sent_def Let_def
      split: option.splits)

lemma close_appends:
  assumes "S3OpenWrite_close w = (rc, w')"
  shows "\<exists>rs. requests (backend w') = requests (backend w) @ rs"
  using assms
  by (auto simp: S3OpenWrite_close_def upload_last_part_def request_def Let_def
      split: option.splits if_splits)

lemma close_fails_cancels:
  assumes "S3OpenWrite_close w = (Inl e, w')" and "total_size w \<noteq> 0"
  shows "CancelUpload \<notin> set (sent_by w w')"
  using close_sends [OF assms(1)] assms(2) by (simp split: if_splits)

text \<open>
  Claim C4 says that the abort is attempted at most once per session and that the
  original exception is never replaced by a teardown failure. On a store that fails
  every request after the first, leaving the scope of an empty session normally sends
  the abort twice and raises the second abort's failure, not the first; leaving it with
  \<open>TypeError\<close> active raises the abort's failure in its place.
\<close>

theorem exit_double_cancel_counterexample:
  "S3OpenWrite_init refusing 100 = Inr idle_writer
   \<and> fst (S3OpenWrite_close idle_writer) = Inl (BackendError 1)
   \<and> S3OpenWrite_exit None idle_writer =
       (Inl (BackendError 2),
        idle_writer\<lparr>backend := \<lparr>faults = refusing,
          requests = [(InitiateUpload, None), (CancelUpload, Some (BackendError 1)),
                      (CancelUpload, Some (BackendError 2))]\<rparr>\<rparr>)
   \<and> S3OpenWrite_exit (Some TypeError) idle_writer =
       (Inl (BackendError 1),
        idle_writer\<lparr>backend := \<lparr>faults = refusing,
          requests = [(InitiateUpload, None), (CancelUpload, Some (BackendError 1))]\<rparr>\<rparr>)"
  by (simp add: idle_writer_def refusing_def writer_defs Let_def)

text \<open>
  Claim C4, amended. For every exit of the scope: with an exception active,
  \<open>__exit__\<close> sends one abort and nothing else; when \<open>close\<close> fails, it sends
  one abort after what \<open>close\<close> has sent, and \<open>close\<close> has sent no abort itself
  unless the total was zero; when neither is the case it sends what \<open>close\<close> sends
  and returns. In the first two cases, if that abort succeeds the exception that leaves
  the scope is the original one (the active one, or the one \<open>close\<close> raised), and
  if the abort fails it is the abort's.
\<close>

theorem exit_cancels_and_reraises:
  assumes ex: "S3OpenWrite_exit ty w = (r, w')" and cl: "S3OpenWrite_close w = (rc, w1)"
  shows "(ty \<noteq> None \<longrightarrow> sent_by w w' = [CancelUpload])
     \<and> (ty = None \<and> isl rc \<longrightarrow>
          sent_by w w' = sent_by w w1 @ [CancelUpload]
          \<and> (total_size w \<noteq> 0 \<longrightarrow> CancelUpload \<notin> set (sent_by w w1)))
     \<and> (ty = None \<and> \<not> isl rc \<longrightarrow> sent_by w w' = sent_by w w1 \<and> r = Inr None)
     \<and> (ty \<noteq> None \<or> isl rc \<longrightarrow>
          with_propagates ty r =
            (case snd (last (requests (backend w'))) of
               None \<Rightarrow> triggering ty rc
             | Some e \<Rightarrow> Some e))"
proof -
  have a: "ty \<noteq> None \<longrightarrow> sent_by w w' = [CancelUpload]
      \<and> with_propagates ty r =
            (case snd (last (requests (backend w'))) of
               None \<Rightarrow> triggering ty rc
             | Some e \<Rightarrow> Some e)"
  proof
    assume ty: "ty \<noteq> None"
    obtain r2 w2 where t: "S3OpenWrite_termination_error w = (r2, w2)"
      by (cases "S3OpenWrite_termination_error w")
    note ts = termination_error_sends [OF t]
    have w': "w' = w2" and r: "r = (case r2 of Inl e \<Rightarrow> Inl e | Inr u \<Rightarrow> Inr (Some False))"
      using ex ty t by (auto simp: S3OpenWrite_exit_def split: sum.splits)
    show "sent_by w w' = [CancelUpload]
      \<and> with_propagates ty r =
            (case snd (last (requests (backend w'))) of
               None \<Rightarrow> triggering ty rc
             | Some e \<Rightarrow> Some e)"
      using ts(1) ts(3) ty
      by (auto simp: w' r with_propagates_def triggering_def split: option.splits)
  qed
  have b: "ty = None \<and> isl rc \<longrightarrow>
          sent_by w w' = sent_by w w1 @ [CancelUpload]
          \<and> (total_size w \<noteq> 0 \<longrightarrow> CancelUpload \<notin> set (sent_by w w1))
          \<and> with_propagates ty r =
            (case snd (last (requests (backend w'))) of
               None \<Rightarrow> triggering ty rc
             | Some e \<Rightarrow> Some e)"
  proof
    assume h: "ty = None \<and> isl rc"
    then obtain e where rc: "rc = Inl e" by (cases rc) auto
    obtain r2 w2 where t: "S3OpenWrite_termination_error w1 = (r2, w2)"
      by (cases "S3OpenWrite_termination_error w1")
    note ts = termination_error_sends [OF t]
    have w': "w' = w2" and r: "r = (case r2 of Inl e2 \<Rightarrow> Inl e2 | Inr u \<Rightarrow> Inl e)"
      using ex h cl rc t by (auto simp: S3OpenWrite_exit_def split: sum.splits)
    from close_appends [OF cl] obtain rs where rs: "requests (backend w1) = requests (backend w) @ rs"
      by blast
    from ts(2) obtain out where out: "requests (backend w2) = requests (backend w1) @ [(CancelUpload, out)]"
      by blast
    have s: "sent_by w w' = sent_by w w1 @ [CancelUpload]"
      by (simp add: w' out rs sent_by_def sent_def)
    have c: "total_size w \<noteq> 0 \<longrightarrow> CancelUpload \<notin> set (sent_by w w1)"
      using close_fails_cancels [of w e w1] cl rc by simp
    have p: "with_propagates ty r =
            (case snd (last (requests (backend w'))) of
               None \<Rightarrow> triggering ty rc
             | Some e \<Rightarrow> Some e)"
      using ts(3) h
      by (auto simp: w' r rc with_propagates_def triggering_def split: option.splits)
    from s c p show "sent_by w w' = sent_by w w1 @ [CancelUpload]
          \<and> (total_size w \<noteq> 0 \<longrightarrow> CancelUpload \<notin> set (sent_by w w1))
          \<and> with_propagates ty r =
            (case snd (last (requests (backend w'))) of
               None \<Rightarrow> triggering ty rc
             | Some e \<Rightarrow> Some e)"
      by blast
  qed
  have c: "ty = None \<and> \<not> isl rc \<longrightarrow> sent_by w w' = sent_by w w1 \<and> r = Inr None"
    using ex cl by (cases rc) (auto simp: S3OpenWrite_exit_def)
  show ?thesis
  proof (cases "ty = None")
    case True
    with b c show ?thesis by (cases "isl rc") simp_all
  next
    case False
    with a show ?thesis by auto
  qed
qed

theorem exit_cancels_and_reraises_witness:
  "\<exists>w0 w w1 w'. S3OpenWrite_init failing_once 100 = Inr w0
     \<and> writes [PyBytes ''x''] w0 = (Inr (), w)
     \<and> S3OpenWrite_close w = (Inl (BackendError 1), w1)
     \<and> S3OpenWrite_exit None w = (Inl (BackendError 1), w')
     \<and> sent_by w w' = [UploadPart 1 ''x'', CancelUpload]
     \<and> with_propagates None (Inl (BackendError 1)) = Some (BackendError 1)"
proof -
  obtain w0 where i: "S3OpenWrite_init failing_once 100 = Inr w0"
    by (simp add: writer_defs failing_once_def Let_def)
  obtain w where ws: "writes [PyBytes ''x''] w0 = (Inr (), w)"
    using i by (auto simp: writer_defs failing_once_def Let_def)
  obtain w1 where cl: "S3OpenWrite_close w = (Inl (BackendError 1), w1)"
    using i ws by (auto simp: writer_defs failing_once_def Let_def)
  obtain w' where ex: "S3OpenWrite_exit None w = (Inl (BackendError 1), w')"
    using i ws by (auto simp: writer_defs failing_once_def Let_def)
  have s1: "sent_by w w1 = [UploadPart 1 ''x'']"
    using i ws cl by (auto simp: writer_defs failing_once_def Let_def)
  have "isl (Inl (BackendError 1) :: exn + unit)" by simp
  with exit_cancels_and_reraises [OF ex cl] s1
  have "sent_by w w' = [UploadPart 1 ''x'', CancelUpload]" by simp
  moreover have "with_propagates None (Inl (BackendError 1)) = Some (BackendError 1)"
    by (simp add: with_propagates_def)
  ultimately show ?thesis using i ws cl ex by blast
qed

section \<open>Verification of the enumerator\<close>

lemmas enum_defs = s3_iter_bucket_def bucket_list_def s3_iter_bucket_process_key_def
  two_keys_def in_order_def

lemma iter_results_exhausted:
  "snd (iter_results rs key_no key_limit None) = Terminated"
proof (induction rs arbitrary: key_no)
  case Nil
  show ?case by simp
next
  case (Cons r rs)
  obtain key content where r: "r = (key, content)" by (cases r)
  obtain ys p where rec: "iter_results rs (key_no + 1) key_limit None = (ys, p)"
    by (cases "iter_results rs (key_no + 1) key_limit None")
  have "p = Terminated" using Cons.IH [of "key_no + 1"] rec by simp
  then show ?case using rec by (simp add: r)
qed

lemma s3_iter_bucket_exhausted:
  "pool (s3_iter_bucket bucket pfx accept_key key_limit workers completion None) =
     (if workers < 1 then NotCreated else Terminated)"
  using iter_results_exhausted
  by (auto simp: s3_iter_bucket_def Let_def split: prod.splits dest: sndI
      simp del: iter_results.simps)

text \<open>
  Claim C6 says the pool is terminated on every way out of the enumeration. A consumer
  that takes one of two results and abandons the generator leaves the pool running:
  \<open>pool.terminate()\<close> stands after the loop, which a generator closed at its
  \<open>yield\<close> never reaches. A consumer that goes on to the end, with or without a
  limit, finds the pool terminated.
\<close>

theorem abandoned_pool_left_running:
  "yielded (s3_iter_bucket two_keys [] (\<lambda>n. True) None 16 in_order (Some 1)) = [(''a'', ''1'')]
   \<and> pool (s3_iter_bucket two_keys [] (\<lambda>n. True) None 16 in_order (Some 1)) = Running
   \<and> pool (s3_iter_bucket two_keys [] (\<lambda>n. True) None 16 in_order None) = Terminated
   \<and> pool (s3_iter_bucket two_keys [] (\<lambda>n. True) (Some 1) 16 in_order None) = Terminated"
  by (simp add: enum_defs)

lemma iter_results_length:
  "length (fst (iter_results rs key_no (Some l) None)) =
     (if rs = [] then 0 else min (length rs) (max 1 (nat (l - key_no))))"
proof (induction rs arbitrary: key_no)
  case Nil
  show ?case by simp
next
  case (Cons r rs)
  obtain key content where r: "r = (key, content)" by (cases r)
  show ?case
  proof (cases "key_no + 1 \<ge> l")
    case True
    then show ?thesis by (simp add: r)
  next
    case False
    obtain ys p where rec: "iter_results rs (key_no + 1) (Some l) None = (ys, p)"
      by (cases "iter_results rs (key_no + 1) (Some l) None")
    have "length ys = (if rs = [] then 0 else min (length rs) (max 1 (nat (l - (key_no + 1)))))"
      using Cons.IH [of "key_no + 1"] rec by simp
    moreover have "length (fst (iter_results (r # rs) key_no (Some l) None)) = Suc (length ys)"
      using False rec by (simp add: r)
    ultimately show ?thesis using False by (auto simp: min_def max_def)
  qed
qed

lemma iter_results_names:
  "set (fst (iter_results rs key_no key_limit pulls)) \<subseteq> (\<lambda>(key, content). (key_name key, content)) ` set rs"
proof (induction rs arbitrary: key_no pulls)
  case Nil
  show ?case by simp
next
  case (Cons r rs)
  obtain key content where r: "r = (key, content)" by (cases r)
  let ?p = "map_option (\<lambda>n. n - 1) pulls"
  obtain ys p where rec: "iter_results rs (key_no + 1) key_limit ?p = (ys, p)"
    by (cases "iter_results rs (key_no + 1) key_limit ?p")
  have "set ys \<subseteq> (\<lambda>(key, content). (key_name key, content)) ` set rs"
    using Cons.IH [of "key_no + 1" ?p] rec by simp
  then show ?case using rec by (auto simp: r)
qed

lemma s3_iter_bucket_limit:
  assumes "1 \<le> workers" and "1 \<le> k"
    and "\<And>tasks. length (completion workers tasks) = length tasks"
  shows "length (yielded (s3_iter_bucket bucket pfx accept_key (Some k) workers completion None)) =
     min (nat k) (length (filter (\<lambda>key. accept_key (key_name key)) (bucket_list bucket pfx)))"
proof -
  let ?keys = "filter (\<lambda>key. accept_key (key_name key)) (bucket_list bucket pfx)"
  let ?rs = "completion workers (map s3_iter_bucket_process_key ?keys)"
  have y: "yielded (s3_iter_bucket bucket pfx accept_key (Some k) workers completion None) =
      fst (iter_results ?rs 0 (Some k) None)"
    using assms(1) by (simp add: s3_iter_bucket_def Let_def split: prod.splits)
  have l: "length ?rs = length ?keys" by (simp add: assms(3))
  have m: "max 1 (nat k) = nat k" using assms(2) by simp
  show ?thesis
    unfolding y iter_results_length using l m by (cases "?rs = []") (auto simp: min_def)
qed

lemma s3_iter_bucket_submits_accepted:
  "list_all (\<lambda>key. accept_key (key_name key))
     (submitted (s3_iter_bucket bucket pfx accept_key key_limit workers completion pulls))"
  by (simp add: s3_iter_bucket_def Let_def list_all_iff split: prod.splits)

text \<open>
  Claim C7 says that a limit of \<open>k\<close> gives exactly \<open>min k n\<close> results for
  \<open>n\<close> accepted keys. With limit 0 and two accepted keys one result is yielded: the
  limit is tested only after a \<open>yield\<close>.
\<close>

theorem limit_zero_yields_one:
  "yielded (s3_iter_bucket two_keys [] (\<lambda>n. True) (Some 0) 16 in_order None) = [(''a'', ''1'')]
   \<and> length (yielded (s3_iter_bucket two_keys [] (\<lambda>n. True) (Some 0) 16 in_order None)) = 1
   \<and> min (0::nat) (length (filter (\<lambda>key. (\<lambda>n. True) (key_name key)) (bucket_list two_keys []))) = 0"
  by (simp add: enum_defs)


section \<open>Verification of the URI resolver\<close>

lemmas uri_defs = ParseUri_def urlsplit_def split_scheme_def splitnetloc_def parse_split_def
  unpack_bucket_key_def split1_def blank_uri_def py_find_def slice_def lower_def
  scheme_chars_def Let_def

text \<open>
  Claim C8 says that an object-store URI without the \<open>/\<close> between bucket and key
  fails with the error of the malformed URIs. The constructor raises \<open>RuntimeError\<close>
  for the other malformed URIs, and for this one the \<open>ValueError\<close> of the failed
  unpacking, with or without credentials.
\<close>

theorem s3_uri_without_slash_raises_ValueError:
  "ParseUri False ''s3://mybucket'' ''file'' = Inl ValueError
   \<and> ParseUri False ''s3://key:secret@mybucket'' ''file'' = Inl ValueError
   \<and> ParseUri False ''s3://a@b@c/d'' ''file'' = Inl RuntimeError
   \<and> ParseUri False ''s3://a@b/d'' ''file'' = Inl RuntimeError
   \<and> ParseUri False ''hdfs://'' ''file'' = Inl RuntimeError
   \<and> ParseUri False ''file://'' ''file'' = Inl RuntimeError"
  by (simp add: uri_defs)

text \<open>
  Claim C9 says that \<open>hdfs:///user/x/file\<close> resolves to the path
  \<open>user/x/file\<close>. The path it resolves to keeps the leading slash.
\<close>

theorem hdfs_path_keeps_slash_counterexample:
  "map_sum id uri_path (ParseUri False ''hdfs:///user/x/file'' ''file'') = Inr (Some ''/user/x/file'')
   \<and> map_sum id uri_path (ParseUri False ''hdfs:///user/x/file'' ''file'') \<noteq> Inr (Some ''user/x/file'')"
  by (simp add: uri_defs)

text \<open>
  Claim C9, amended. On every platform and for every default scheme,
  \<open>hdfs:///user/x/file\<close> resolves to the scheme \<open>hdfs\<close> and the path
  \<open>/user/x/file\<close>, and \<open>hdfs://\<close> fails with \<open>RuntimeError\<close>.
\<close>

theorem hdfs_uri_resolution:
  "ParseUri nt ''hdfs:///user/x/file'' default_scheme =
     Inr \<lparr>scheme = ''hdfs'', uri_path = Some ''/user/x/file'', bucket_id = None, key_id = None,
          access_id = None, access_secret = None\<rparr>
   \<and> ParseUri nt ''hdfs://'' default_scheme = Inl RuntimeError"
  by (simp add: uri_defs)

text \<open>
  Which results of \<open>urlsplit\<close> make the constructor raise \<open>RuntimeError\<close>, and
  which \<open>ValueError\<close>.
\<close>

lemma split_on_length: "length (split_on c s) = Suc (count_list s c)"
  by (induction s) (auto split: list.splits)

lemma split_on_absent: "count_list s c = 0 \<Longrightarrow> split_on c s = [s]"
  by (induction s) (auto split: if_splits)

lemma unpack_bucket_key_cases:
  "unpack_bucket_key p s =
     (if CHR ''/'' \<in> set s
      then Inr (p\<lparr>bucket_id := Some (takeWhile (\<lambda>c. c \<noteq> CHR ''/'') s),
                 key_id := Some (tl (dropWhile (\<lambda>c. c \<noteq> CHR ''/'') s))\<rparr>)
      else Inl ValueError)"
  by (simp add: unpack_bucket_key_def split1_def)

lemma parse_split_RuntimeError_iff:
  fixes parsed default_scheme
  defines "sch \<equiv> resolved_scheme parsed default_scheme"
    and "loc \<equiv> netloc parsed @ path parsed"
  shows "parse_split parsed default_scheme = Inl RuntimeError \<longleftrightarrow>
     ((sch = ''hdfs'' \<or> sch = ''file'') \<and> loc = [])
     \<or> ((sch = ''s3'' \<or> sch = ''s3n'')
         \<and> (2 \<le> count_list loc (CHR ''@'')
            \<or> (count_list loc (CHR ''@'') = 1
               \<and> count_list (hd (split_on (CHR ''@'') loc)) (CHR '':'') \<noteq> 1)))"
proof -
  let ?ps = "split_on (CHR ''@'') loc"
  have len: "length ?ps = Suc (count_list loc (CHR ''@''))" by (rule split_on_length)
  have hd0: "?ps ! 0 = hd ?ps" using len by (cases ?ps) simp_all
  have two: "length (split_on (CHR '':'') (hd ?ps)) = 2 \<Longrightarrow>
      \<exists>a b. split_on (CHR '':'') (hd ?ps) = [a, b]"
    by (cases "split_on (CHR '':'') (hd ?ps)"; cases "tl (split_on (CHR '':'') (hd ?ps))") auto
  show ?thesis
  proof (cases "sch = ''s3'' \<or> sch = ''s3n''")
    case False
    then show ?thesis
      by (auto simp: parse_split_def resolved_scheme_def sch_def loc_def Let_def)
  next
    case True
    then have nh: "sch \<noteq> ''hdfs''" "sch \<noteq> ''file''" by auto
    have ps: "parse_split parsed default_scheme =
        (if length ?ps = 1 then unpack_bucket_key (blank_uri sch) (?ps ! 0)
         else if length ?ps = 2 \<and> length (split_on (CHR '':'') (?ps ! 0)) = 2
         then (case split_on (CHR '':'') (?ps ! 0) of
                 [aid, asec] \<Rightarrow>
                   unpack_bucket_key
                     ((blank_uri sch)\<lparr>access_id := Some aid, access_secret := Some asec\<rparr>)
                     (?ps ! 1)
               | _ \<Rightarrow> Inl ValueError)
         else Inl RuntimeError)"
      using True nh unfolding parse_split_def resolved_scheme_def sch_def loc_def Let_def
      by (simp only: if_True if_False simp_thms)
    show ?thesis
    proof (cases "count_list loc (CHR ''@'') = 0")
      case True
      then show ?thesis
        using \<open>sch = ''s3'' \<or> sch = ''s3n''\<close> nh
        by (simp add: ps len unpack_bucket_key_cases)
    next
      case False
      show ?thesis
      proof (cases "count_list loc (CHR ''@'') = 1")
        case c1: True
        show ?thesis
        proof (cases "count_list (hd ?ps) (CHR '':'') = 1")
          case True
          then have "length (split_on (CHR '':'') (hd ?ps)) = 2"
            by (simp add: split_on_length)
          from two [OF this] obtain a b where ab: "split_on (CHR '':'') (hd ?ps) = [a, b]"
            by blast
          show ?thesis
            using \<open>sch = ''s3'' \<or> sch = ''s3n''\<close> nh c1 True
            by (simp add: ps len hd0 ab unpack_bucket_key_cases)
        next
          case False
          then have "length (split_on (CHR '':'') (hd ?ps)) \<noteq> 2"
            by (simp add: split_on_length)
          then show ?thesis
            using \<open>sch = ''s3'' \<or> sch = ''s3n''\<close> nh c1 False
            by (simp add: ps len hd0)
        qed
      next
        case c2: False
        with False have "2 \<le> count_list loc (CHR ''@'')" by simp
        then show ?thesis
          using \<open>sch = ''s3'' \<or> sch = ''s3n''\<close> nh
          by (simp add: ps len)
      qed
    qed
  qed
qed

lemma parse_split_ValueError_iff:
  fixes parsed default_scheme
  defines "sch \<equiv> resolved_scheme parsed default_scheme"
    and "loc \<equiv> netloc parsed @ path parsed"
  shows "parse_split parsed default_scheme = Inl ValueError \<longleftrightarrow>
     (sch = ''s3'' \<or> sch = ''s3n'')
     \<and> ((count_list loc (CHR ''@'') = 0 \<and> CHR ''/'' \<notin> set loc)
        \<or> (count_list loc (CHR ''@'') = 1
           \<and> count_list (hd (split_on (CHR ''@'') loc)) (CHR '':'') = 1
           \<and> CHR ''/'' \<notin> set (split_on (CHR ''@'') loc ! 1)))"
proof -
  let ?ps = "split_on (CHR ''@'') loc"
  have len: "length ?ps = Suc (count_list loc (CHR ''@''))" by (rule split_on_length)
  have hd0: "?ps ! 0 = hd ?ps" using len by (cases ?ps) simp_all
  have two: "length (split_on (CHR '':'') (hd ?ps)) = 2 \<Longrightarrow>
      \<exists>a b. split_on (CHR '':'') (hd ?ps) = [a, b]"
    by (cases "split_on (CHR '':'') (hd ?ps)"; cases "tl (split_on (CHR '':'') (hd ?ps))") auto
  have whole: "count_list loc (CHR ''@'') = 0 \<Longrightarrow> hd ?ps = loc"
    by (simp add: split_on_absent)
  show ?thesis
  proof (cases "sch = ''s3'' \<or> sch = ''s3n''")
    case False
    then show ?thesis
      by (auto simp: parse_split_def resolved_scheme_def sch_def loc_def Let_def)
  next
    case True
    then have nh: "sch \<noteq> ''hdfs''" "sch \<noteq> ''file''" by auto
    have ps: "parse_split parsed default_scheme =
        (if length ?ps = 1 then unpack_bucket_key (blank_uri sch) (?ps ! 0)
         else if length ?ps = 2 \<and> length (split_on (CHR '':'') (?ps ! 0)) = 2
         then (case split_on (CHR '':'') (?ps ! 0) of
                 [aid, asec] \<Rightarrow>
                   unpack_bucket_key
                     ((blank_uri sch)\<lparr>access_id := Some aid, access_secret := Some asec\<rparr>)
                     (?ps ! 1)
               | _ \<Rightarrow> Inl ValueError)
         else Inl RuntimeError)"
      using True nh unfolding parse_split_def resolved_scheme_def sch_def loc_def Let_def
      by (simp only: if_True if_False simp_thms)
    show ?thesis
    proof (cases "count_list loc (CHR ''@'') = 0")
      case z: True
      show ?thesis
        using True z whole [OF z]
        by (simp add: ps len hd0 unpack_bucket_key_cases)
    next
      case False
      show ?thesis
      proof (cases "count_list loc (CHR ''@'') = 1")
        case c1: True
        show ?thesis
        proof (cases "count_list (hd ?ps) (CHR '':'') = 1")
          case c: True
          then have "length (split_on (CHR '':'') (hd ?ps)) = 2"
            by (simp add: split_on_length)
          from two [OF this] obtain a b where ab: "split_on (CHR '':'') (hd ?ps) = [a, b]"
            by blast
          show ?thesis
            using True c1 c
            by (simp add: ps len hd0 ab unpack_bucket_key_cases)
        next
          case c: False
          then have "length (split_on (CHR '':'') (hd ?ps)) \<noteq> 2"
            by (simp add: split_on_length)
          then show ?thesis
            using True c1 c
            by (simp add: ps len hd0)
        qed
      next
        case c2: False
        with False have "2 \<le> count_list loc (CHR ''@'')" by simp
        then show ?thesis
          using True False c2
          by (simp add: ps len)
      qed
    qed
  qed
qed

section \<open>Verification of the positional read\<close>

text \<open>
  A read without a size on a key that no response is open on returns the whole object;
  the read after it finds nothing left, returns no data and closes the key; and the
  read after that returns the whole object again.
\<close>

lemma read_starts_over_after_empty_read:
  assumes "resp k = None" and "content k \<noteq> []"
  shows "S3OpenRead_read None k = (content k, k\<lparr>resp := Some (length (content k))\<rparr>)"
    and "S3OpenRead_read None (k\<lparr>resp := Some (length (content k))\<rparr>) = ([], k)"
  using assms by (simp_all add: S3OpenRead_read_def boto_read_def cursor_def Let_def)

text \<open>
  Claim C10. A read with size \<open>None\<close>, zero or negative returns all the bytes from
  the key's cursor to the end of the object; it leaves the response at the end of the
  object when it has returned data, and closes the key when it has returned none. So a
  read of size 0 is not empty while bytes are left.
\<close>

theorem read_without_size_reads_rest:
  assumes "case sz of None \<Rightarrow> True | Some n \<Rightarrow> n \<le> 0"
  shows "S3OpenRead_read sz k =
           (drop (cursor k) (content k),
            k\<lparr>resp := (if cursor k < length (content k) then Some (length (content k))
                       else None)\<rparr>)
         \<and> (cursor k < length (content k) \<longrightarrow> fst (S3OpenRead_read sz k) \<noteq> [])"
  using assms by (auto simp: S3OpenRead_read_def boto_read_def Let_def split: option.splits)

theorem read_without_size_reads_rest_witness:
  "S3OpenRead_read (Some 0) \<lparr>content = ''hello'', resp = Some 2\<rparr>
     = (''llo'', \<lparr>content = ''hello'', resp = Some 5\<rparr>)
   \<and> S3OpenRead_read None \<lparr>content = ''hello'', resp = None\<rparr>
     = (''hello'', \<lparr>content = ''hello'', resp = Some 5\<rparr>)
   \<and> S3OpenRead_read (Some (- 7)) \<lparr>content = ''hello'', resp = Some 5\<rparr>
     = ([], \<lparr>content = ''hello'', resp = None\<rparr>)
   \<and> S3OpenRead_read (Some 2) \<lparr>content = ''hello'', resp = Some 2\<rparr>
     = (''ll'', \<lparr>content = ''hello'', resp = Some 4\<rparr>)"
  using read_without_size_reads_rest [of "Some 0" "\<lparr>content = ''hello'', resp = Some 2\<rparr>"]
    read_without_size_reads_rest [of None "\<lparr>content = ''hello'', resp = None\<rparr>"]
    read_without_size_reads_rest [of "Some (- 7)" "\<lparr>content = ''hello'', resp = Some 5\<rparr>"]
  by (simp add: S3OpenRead_read_def boto_read_def cursor_def Let_def)

end
